theory Spec2Isabelle
  imports Complex_Main
begin

section \<open>Text\<close>

text \<open>
  A Python \<open>str\<close> is a sequence of Unicode code points; a code point is modelled as a
  natural number and a text as a list of them. \<open>U\<close> reads an ASCII literal.
\<close>

type_synonym codepoint = nat
type_synonym str = "codepoint list"

definition U :: "string \<Rightarrow> str" where
  "U s = map of_char s"

text \<open>
  The code points Python counts as whitespace, both in \<open>str.strip()\<close> and for \<open>\s\<close> in a
  \<open>str\<close> pattern: 0x09-0x0D, 0x1C-0x20, 0x85, 0xA0, 0x1680, 0x2000-0x200A, 0x2028,
  0x2029, 0x202F, 0x205F, 0x3000.
\<close>

definition isspace :: "codepoint \<Rightarrow> bool" where
  "isspace c \<longleftrightarrow>
     (9 \<le> c \<and> c \<le> 13) \<or> (28 \<le> c \<and> c \<le> 32) \<or> c = 133 \<or> c = 160 \<or> c = 5760 \<or>
     (8192 \<le> c \<and> c \<le> 8202) \<or> c = 8232 \<or> c = 8233 \<or> c = 8239 \<or> c = 8287 \<or> c = 12288"

definition strip :: "str \<Rightarrow> str" where
  "strip s = rev (dropWhile isspace (rev (dropWhile isspace s)))"

section \<open>The pattern of \<open>grade_result\<close>\<close>

text \<open>
  \<^verbatim>\<open>re.search(r"Minimum Drag Coefficient \(Cd\):\s*([0-9.]+)", output, re.IGNORECASE)\<close>

  The pattern is a literal label, \<open>\s*\<close>, and one group \<open>[0-9.]+\<close>. Under
  \<open>re.IGNORECASE\<close> a literal of the pattern is lowered when the pattern is compiled, and a
  code point of the subject matches it when its lower case is that literal, or when it is
  one of the literal's extra case variants (dotless i for i, long s for s).
  \<open>literal_ignore\<close> gives this for an ASCII literal, as all of the label's are: besides
  the two ASCII cases of a letter, only U+0130 and U+0131 match i, U+212A matches k and
  U+017F matches s.
\<close>

definition ascii_lower :: "codepoint \<Rightarrow> codepoint" where
  "ascii_lower p = (if 65 \<le> p \<and> p \<le> 90 then p + 32 else p)"

definition literal_ignore :: "codepoint \<Rightarrow> codepoint \<Rightarrow> bool" where
  "literal_ignore p c \<longleftrightarrow>
     (let lo = ascii_lower p in
        c = lo \<or> (97 \<le> lo \<and> lo \<le> 122 \<and> c + 32 = lo) \<or>
        (lo = 105 \<and> (c = 304 \<or> c = 305)) \<or> (lo = 107 \<and> c = 8490) \<or>
        (lo = 115 \<and> c = 383))"

definition label :: str where
  "label = U ''Minimum Drag Coefficient (Cd):''"

fun match_literal :: "str \<Rightarrow> str \<Rightarrow> str option" where
  "match_literal [] s = Some s"
| "match_literal (p # ps) [] = None"
| "match_literal (p # ps) (c # cs) =
     (if literal_ignore p c then match_literal ps cs else None)"

text \<open>The class \<open>[0-9.]\<close>: an ASCII digit or the full stop.\<close>

definition is_digit :: "codepoint \<Rightarrow> bool" where
  "is_digit c \<longleftrightarrow> 48 \<le> c \<and> c \<le> 57"

definition in_class :: "codepoint \<Rightarrow> bool" where
  "in_class c \<longleftrightarrow> is_digit c \<or> c = 46"

text \<open>
  A match object: where the match starts, what group 1 captured, and the text after the
  end of the match.
\<close>

record re_match =
  m_start :: nat
  group1 :: str
  m_rest :: str

text \<open>
  An attempt at one position. Both \<open>\s*\<close> and \<open>[0-9.]+\<close> are greedy, and no code point is
  both whitespace and in the class, so giving back whitespace or class characters never
  turns a failed attempt into a match: the attempt takes the longest run of each.
\<close>

definition match_at :: "nat \<Rightarrow> str \<Rightarrow> re_match option" where
  "match_at i s =
     (case match_literal label s of
        None \<Rightarrow> None
      | Some r \<Rightarrow>
          (let r' = dropWhile isspace r; g = takeWhile in_class r'
           in if g = [] then None
              else Some \<lparr>m_start = i, group1 = g, m_rest = dropWhile in_class r'\<rparr>))"

text \<open>\<open>re.search\<close> tries the positions from left to right and returns the first match.\<close>

fun search_from :: "nat \<Rightarrow> str \<Rightarrow> re_match option" where
  "search_from i [] = match_at i []"
| "search_from i (c # cs) =
     (case match_at i (c # cs) of
        Some m \<Rightarrow> Some m
      | None \<Rightarrow> search_from (Suc i) cs)"

definition re_search :: "str \<Rightarrow> re_match option" where
  "re_search s = search_from 0 s"

section \<open>Floating-point numbers\<close>

text \<open>
  A Python \<open>float\<close> is an IEEE 754 binary64 number: a finite value, which is a rational
  number, an infinity or a NaN. The sign of zero is not modelled: no operation of
  \<open>grade_result\<close> tells the two zeros apart.
\<close>

datatype double = Fin rat | PInf | NInf | NaN

text \<open>\<open>bitlen n\<close> is the number of binary digits of a positive integer.\<close>

function bitlen :: "int \<Rightarrow> int" where
  "bitlen n = (if n \<le> 0 then 0 else 1 + bitlen (n div 2))"
  by pat_completeness auto
termination
  by (relation "measure nat") auto

declare bitlen.simps [simp del]

text \<open>\<open>ilog2 q\<close> is the integer \<open>e\<close> with \<open>2^e \<le> |q| < 2^(e+1)\<close>, for \<open>q \<noteq> 0\<close>.\<close>

definition ilog2 :: "rat \<Rightarrow> int" where
  "ilog2 q =
     (let (p, d) = quotient_of q;
          k = bitlen \<bar>p\<bar> - bitlen d
      in if 2 powi k \<le> \<bar>q\<bar> then k else k - 1)"

text \<open>Rounding to the nearest integer, a tie going to the even one.\<close>

definition round_half_even :: "rat \<Rightarrow> int" where
  "round_half_even x =
     (let f = \<lfloor>x\<rfloor>; r = x - of_int f
      in if r < 1 / 2 then f
         else if 1 / 2 < r then f + 1
         else if even f then f else f + 1)"

text \<open>
  The spacing of the binary64 numbers around \<open>q\<close>: 53 significant bits, and the least
  exponent -1022 (below it the numbers are subnormal, all with the same spacing).
\<close>

definition ulp :: "rat \<Rightarrow> rat" where
  "ulp q = 2 powi (max (ilog2 q) (- 1022) - 52)"

text \<open>
  \<open>rnd\<close> rounds an exact result to binary64, to the nearest number and on a tie to the one
  with an even significand; a result that rounds to \<open>2^1024\<close> or beyond is an infinity.
\<close>

definition rnd :: "rat \<Rightarrow> double" where
  "rnd q =
     (if q = 0 then Fin 0
      else let r = of_int (round_half_even (q / ulp q)) * ulp q
           in if 2 ^ 1024 \<le> \<bar>r\<bar> then (if 0 < q then PInf else NInf) else Fin r)"

text \<open>
  The finite binary64 numbers: zero, and the values below \<open>2^1024\<close> that are a whole
  multiple of the spacing around them.
\<close>

definition is_double :: "rat \<Rightarrow> bool" where
  "is_double c \<longleftrightarrow> c = 0 \<or> (\<bar>c\<bar> < 2 ^ 1024 \<and> of_int \<lfloor>c / ulp c\<rfloor> = c / ulp c)"

fun fsub :: "double \<Rightarrow> double \<Rightarrow> double" where
  "fsub (Fin a) (Fin b) = rnd (a - b)"
| "fsub NaN y = NaN"
| "fsub x NaN = NaN"
| "fsub PInf PInf = NaN"
| "fsub NInf NInf = NaN"
| "fsub PInf y = PInf"
| "fsub NInf y = NInf"
| "fsub (Fin a) PInf = NInf"
| "fsub (Fin a) NInf = PInf"

fun fabs :: "double \<Rightarrow> double" where
  "fabs (Fin a) = Fin \<bar>a\<bar>"
| "fabs PInf = PInf"
| "fabs NInf = PInf"
| "fabs NaN = NaN"

text \<open>
  Multiplication and division. Python raises \<open>ZeroDivisionError\<close> on a zero divisor;
  \<open>grade_result\<close> divides by two constants only, both shown non-zero below, so \<open>fdiv\<close> is
  given for a non-zero divisor and yields \<open>NaN\<close> otherwise.
\<close>

fun fmul :: "double \<Rightarrow> double \<Rightarrow> double" where
  "fmul (Fin a) (Fin b) = rnd (a * b)"
| "fmul NaN y = NaN"
| "fmul x NaN = NaN"
| "fmul (Fin a) PInf = (if a = 0 then NaN else if 0 < a then PInf else NInf)"
| "fmul (Fin a) NInf = (if a = 0 then NaN else if 0 < a then NInf else PInf)"
| "fmul PInf (Fin b) = (if b = 0 then NaN else if 0 < b then PInf else NInf)"
| "fmul NInf (Fin b) = (if b = 0 then NaN else if 0 < b then NInf else PInf)"
| "fmul PInf PInf = PInf"
| "fmul NInf NInf = PInf"
| "fmul PInf NInf = NInf"
| "fmul NInf PInf = NInf"

fun fdiv :: "double \<Rightarrow> double \<Rightarrow> double" where
  "fdiv (Fin a) (Fin b) = (if b = 0 then NaN else rnd (a / b))"
| "fdiv NaN y = NaN"
| "fdiv x NaN = NaN"
| "fdiv (Fin a) PInf = Fin 0"
| "fdiv (Fin a) NInf = Fin 0"
| "fdiv PInf (Fin b) = (if b = 0 then NaN else if 0 < b then PInf else NInf)"
| "fdiv NInf (Fin b) = (if b = 0 then NaN else if 0 < b then NInf else PInf)"
| "fdiv x y = NaN"

fun fle :: "double \<Rightarrow> double \<Rightarrow> bool" where
  "fle (Fin a) (Fin b) = (a \<le> b)"
| "fle NaN y = False"
| "fle x NaN = False"
| "fle NInf y = True"
| "fle x PInf = True"
| "fle x y = False"

fun flt :: "double \<Rightarrow> double \<Rightarrow> bool" where
  "flt (Fin a) (Fin b) = (a < b)"
| "flt NaN y = False"
| "flt x NaN = False"
| "flt PInf y = False"
| "flt x NInf = False"
| "flt x y = True"

text \<open>
  \<open>round(x, n)\<close> for a float and \<open>n \<ge> 0\<close>: the value is written with \<open>n\<close> decimals,
  correctly rounded from its exact binary value with a tie going to the even digit, and
  the decimal is read back as a float. Infinities and NaN are returned as they are.
\<close>

fun py_round :: "double \<Rightarrow> nat \<Rightarrow> double" where
  "py_round (Fin q) n = rnd (of_int (round_half_even (q * 10 ^ n)) / 10 ^ n)"
| "py_round x n = x"

section \<open>Reading and writing numbers\<close>

text \<open>
  \<open>float(s)\<close> for a string of digits and full stops, which is all that group 1 of the
  pattern can hold: digits with at most one full stop and at least one digit are read as
  a decimal and rounded correctly; anything else raises \<open>ValueError\<close>, here \<open>None\<close>.
  On other strings \<open>float\<close> accepts more (signs, exponents, blanks); they do not reach it.
\<close>

definition dec_val :: "str \<Rightarrow> int" where
  "dec_val ds = foldl (\<lambda>a c. 10 * a + (int c - 48)) 0 ds"

definition py_float :: "str \<Rightarrow> double option" where
  "py_float t =
     (let ip = takeWhile is_digit t; r = dropWhile is_digit t
      in case r of
           [] \<Rightarrow> if ip = [] then None else Some (rnd (of_int (dec_val ip)))
         | c # fp \<Rightarrow>
             if c = 46 \<and> list_all is_digit fp \<and> (ip \<noteq> [] \<or> fp \<noteq> [])
             then Some (rnd (of_int (dec_val (ip @ fp)) / 10 ^ length fp))
             else None)"

text \<open>The decimal digits of a non-negative integer.\<close>

function dec_digits :: "int \<Rightarrow> str" where
  "dec_digits n =
     (if n < 10 then [nat (48 + n)] else dec_digits (n div 10) @ [nat (48 + n mod 10)])"
  by pat_completeness auto
termination
  by (relation "measure nat") auto

declare dec_digits.simps [simp del]

definition zero_pad :: "nat \<Rightarrow> str \<Rightarrow> str" where
  "zero_pad d ds = replicate (d - length ds) 48 @ ds"

text \<open>
  The format \<open>.df\<close> of a float: \<open>d\<close> decimals, correctly rounded from the exact binary
  value, a tie going to the even digit.
\<close>

fun format_f :: "nat \<Rightarrow> double \<Rightarrow> str" where
  "format_f d (Fin q) =
     (let n = round_half_even (\<bar>q\<bar> * 10 ^ d);
          body = dec_digits (n div 10 ^ d) @
                 (if d = 0 then [] else 46 # zero_pad d (dec_digits (n mod 10 ^ d)))
      in if q < 0 then 45 # body else body)"
| "format_f d PInf = U ''inf''"
| "format_f d NInf = U ''-inf''"
| "format_f d NaN = U ''nan''"

text \<open>The format \<open>.d%\<close>: the float is multiplied by 100, written as \<open>.df\<close>, and a percent sign added.\<close>

definition format_pct :: "nat \<Rightarrow> double \<Rightarrow> str" where
  "format_pct d x = format_f d (fmul x (Fin 100)) @ U ''%''"

text \<open>
  \<open>str(x)\<close> for a float that is the nearest to a decimal with at most two decimals, as every
  result of \<open>round(x, 2)\<close> within the range of the score is: the shortest decimal that reads
  back as \<open>x\<close> is that decimal itself, written with at least one decimal.
\<close>

fun float_str :: "double \<Rightarrow> str" where
  "float_str (Fin q) =
     (let n = round_half_even (\<bar>q\<bar> * 100);
          body = dec_digits (n div 100) @ 46 #
                 (if n mod 10 = 0 then dec_digits (n mod 100 div 10)
                  else zero_pad 2 (dec_digits (n mod 100)))
      in if q < 0 then 45 # body else body)"
| "float_str PInf = U ''inf''"
| "float_str NInf = U ''-inf''"
| "float_str NaN = U ''nan''"

section \<open>\<open>grade_result\<close>\<close>

text \<open>A Python number is an \<open>int\<close> or a \<open>float\<close>; \<open>grade_result\<close> returns both kinds.\<close>

datatype pynum = PyInt int | PyFloat double

definition OPTIMAL_CD :: double where
  "OPTIMAL_CD = rnd (300353 / 1000000)"

definition TOLERANCE :: double where
  "TOLERANCE = rnd (10 / 100)"

definition grade_result :: "str option \<Rightarrow> pynum \<times> str" where
  "grade_result output =
     (case output of
        None \<Rightarrow> (PyInt 0, U ''Could not get output from the notebook.'')
      | Some out \<Rightarrow>
          (case re_search out of
             None \<Rightarrow>
               (PyInt 0,
                U ''Could not find the '' @ [39] @ U ''Minimum Drag Coefficient (Cd)'' @ [39] @
                U '' in the output. Make sure it is printed correctly.'')
           | Some m \<Rightarrow>
               (case py_float (group1 m) of
                  None \<Rightarrow>
                    (PyInt 0,
                     U ''Could not parse the drag coefficient value '' @ [39] @ group1 m @
                     [39] @ U ''.'')
                | Some student_cd \<Rightarrow>
                    (let error = fdiv (fabs (fsub student_cd OPTIMAL_CD)) OPTIMAL_CD;
                         score =
                           (if fle error TOLERANCE then Fin 10
                            else if flt error (Fin 1) then
                              fmul (Fin 10)
                                (fsub (Fin 1)
                                   (fdiv (fsub error TOLERANCE) (fsub (Fin 1) TOLERANCE)))
                            else Fin 0);
                         score = py_round score 2;
                         feedback =
                           U ''Grading based on the final Drag Coefficient (Cd).'' @ [10] @
                           U ''Optimal Cd: '' @ format_f 6 OPTIMAL_CD @ [10] @
                           U ''Your Cd: '' @ format_f 6 student_cd @ [10] @
                           U ''Error: '' @ format_pct 2 error @ [10] @
                           U ''Score: '' @ float_str score @ U ''/10''
                     in (PyFloat score, feedback)))))"

section \<open>\<open>execute_notebook\<close>\<close>

text \<open>
  What \<open>nbformat.read\<close> returns for a notebook of the version 4 schema: its cells, each
  with a type and a source text.
\<close>

record cell =
  cell_type :: str
  source :: str

text \<open>
  What \<open>subprocess.run\<close> does with \<open>capture_output=True, text=True\<close>: it returns a
  completed process, or raises \<open>TimeoutExpired\<close>, or raises another exception, of which
  the message is kept.
\<close>

record completed_process =
  returncode :: int
  stdout :: str
  stderr :: str

datatype run_result = Completed completed_process | TimeoutExpired | RunError str

text \<open>
  The world outside the program: reading and parsing the notebook at a path either
  raises an exception, of which the message is kept, or yields the cells; the interpreter
  to run; and the subprocess, given its arguments and its timeout in seconds.
\<close>

record world =
  read_notebook :: "str \<Rightarrow> str + cell list"
  sys_executable :: str
  subprocess_run :: "str list \<Rightarrow> nat \<Rightarrow> run_result"

text \<open>The loop over \<open>nb.cells\<close> that builds \<open>full_code\<close>, starting from the empty string.\<close>

definition full_code :: "cell list \<Rightarrow> str" where
  "full_code cells =
     foldl (\<lambda>code c. if cell_type c = U ''code'' then code @ source c @ [10] else code)
       [] cells"

definition execute_notebook :: "world \<Rightarrow> str \<Rightarrow> str option \<times> str option" where
  "execute_notebook w notebook_path =
     (case read_notebook w notebook_path of
        Inl e \<Rightarrow> (None, Some (U ''Error reading notebook file: '' @ e))
      | Inr cells \<Rightarrow>
          if strip (full_code cells) = []
          then (None, Some (U ''No code found in the notebook.''))
          else
            (case subprocess_run w [sys_executable w, U ''-c'', full_code cells] 240 of
               Completed process \<Rightarrow>
                 if returncode process \<noteq> 0
                 then (None, Some (U ''Code execution failed with an error:'' @ [10] @
                                   stderr process))
                 else (Some (stdout process), None)
             | TimeoutExpired \<Rightarrow>
                 (None, Some (U ''Code execution timed out after 4 minutes.''))
             | RunError e \<Rightarrow>
                 (None, Some (U ''An unexpected error occurred during execution: '' @ e))))"

section \<open>\<open>main\<close>\<close>



text \<open>
  \<open>main\<close> prints once, the JSON text of \<open>test_result\<close>; the model returns the values
  printed to standard output, in order. An error message selects the failure branch when
  it is true as a condition, that is when it is a string and not empty.
\<close>

definition notebook_path :: str where
  "notebook_path = U ''L1_EA_CaseStudyHomework_Stu.ipynb''"


section \<open>The specification's wording, and sample worlds\<close>

text \<open>
  The specification's wording of the executable unit: the sources of the code cells,
  joined with a newline between one fragment and the next.
\<close>

fun join_newline :: "str list \<Rightarrow> str" where
  "join_newline [] = []"
| "join_newline [x] = x"
| "join_newline (x # y # ys) = x @ [10] @ join_newline (y # ys)"

definition spec_code_unit :: "cell list \<Rightarrow> str" where
  "spec_code_unit cells =
     join_newline (map source (filter (\<lambda>c. cell_type c = U ''code'') cells))"

text \<open>
  Sample worlds: the notebook read gives \<open>r\<close> at every path, and the subprocess gives
  \<open>res\<close> when it is run with a timeout of 240 seconds, and a failure to start otherwise.
\<close>

definition sample_world :: "str + cell list \<Rightarrow> run_result \<Rightarrow> world" where
  "sample_world r res =
     \<lparr>read_notebook = (\<lambda>p. r), sys_executable = U ''python3'',
      subprocess_run = (\<lambda>args t. if t = 240 then res else RunError (U ''not run''))\<rparr>"

definition code_cell :: "string \<Rightarrow> cell" where
  "code_cell src = \<lparr>cell_type = U ''code'', source = U src\<rparr>"

definition markdown_cell :: "string \<Rightarrow> cell" where
  "markdown_cell src = \<lparr>cell_type = U ''markdown'', source = U src\<rparr>"


section \<open>The notebook loader\<close>

lemma full_code_foldl:
  "foldl (\<lambda>code c. if cell_type c = U ''code'' then code @ source c @ [10] else code) acc cells
     = acc @ concat (map (\<lambda>c. source c @ [10]) (filter (\<lambda>c. cell_type c = U ''code'') cells))"
  by (induction cells arbitrary: acc) auto

lemma dropWhile_all_iff: "(\<forall>x \<in> set (dropWhile P xs). P x) \<longleftrightarrow> (\<forall>x \<in> set xs. P x)"
proof
  assume a: "\<forall>x \<in> set (dropWhile P xs). P x"
  have "dropWhile P xs = []"
  proof (rule ccontr)
    assume n: "dropWhile P xs \<noteq> []"
    then have "\<not> P (hd (dropWhile P xs))" by (rule hd_dropWhile)
    moreover have "hd (dropWhile P xs) \<in> set (dropWhile P xs)" using n by simp
    ultimately show False using a by blast
  qed
  then show "\<forall>x \<in> set xs. P x" by (simp add: dropWhile_eq_Nil_conv)
next
  assume "\<forall>x \<in> set xs. P x"
  then show "\<forall>x \<in> set (dropWhile P xs). P x" by (meson set_dropWhileD)
qed

lemma strip_empty_iff: "strip s = [] \<longleftrightarrow> (\<forall>c \<in> set s. isspace c)"
  by (simp add: strip_def dropWhile_eq_Nil_conv dropWhile_all_iff)

lemma isspace_newline: "isspace 10"
  by (simp add: isspace_def)

lemma strip_full_code:
  "strip (full_code cells) = [] \<longleftrightarrow>
     (\<forall>c \<in> set cells. cell_type c = U ''code'' \<longrightarrow> strip (source c) = [])"
  by (auto simp: strip_empty_iff full_code_def full_code_foldl isspace_newline)

lemma U_Cons: "U (c # cs) = of_char c # U cs"
  by (simp add: U_def)

lemma U_Nil: "U [] = []"
  by (simp add: U_def)

lemmas sample_defs =
  sample_world_def code_cell_def markdown_cell_def full_code_def strip_def isspace_def
  U_Cons U_Nil

text \<open>
  C6, as the code has it. Every code cell's source is followed by a newline, the cells
  that are not code cells are left out, and the order is the document's. The unit is
  therefore not the fragments joined with a newline between them: a newline also follows
  the last fragment.
\<close>

theorem full_code_newline_after_each:
  "full_code cells =
     concat (map (\<lambda>c. source c @ [10]) (filter (\<lambda>c. cell_type c = U ''code'') cells))"
  by (simp add: full_code_def full_code_foldl)

theorem full_code_not_joined:
  "full_code [code_cell ''x''] \<noteq> spec_code_unit [code_cell ''x'']"
  by (simp add: spec_code_unit_def sample_defs)

text \<open>
  C7. When reading or parsing the document raises, the loader fails with the read error
  and the cause's message; when the notebook has no code cell, or every code cell is
  empty once its whitespace is trimmed, it fails with the empty-code error.
\<close>

theorem loader_failures:
  "(read_notebook w p = Inl e \<longrightarrow>
      execute_notebook w p = (None, Some (U ''Error reading notebook file: '' @ e))) \<and>
   (read_notebook w p = Inr cells \<and>
      (\<forall>c \<in> set cells. cell_type c = U ''code'' \<longrightarrow> strip (source c) = []) \<longrightarrow>
      execute_notebook w p = (None, Some (U ''No code found in the notebook.'')))"
  by (simp add: execute_notebook_def strip_full_code)

theorem loader_failures_witness:
  "execute_notebook (sample_world (Inl (U ''bad json'')) TimeoutExpired) (U ''nb'') =
     (None, Some (U ''Error reading notebook file: bad json'')) \<and>
   execute_notebook
     (sample_world (Inr [markdown_cell ''# title'', code_cell ''  '']) TimeoutExpired) (U ''nb'') =
     (None, Some (U ''No code found in the notebook.''))"
  using
    loader_failures [of "sample_world (Inl (U ''bad json'')) TimeoutExpired" "U ''nb''"
      "U ''bad json''" "[]"]
    loader_failures [of
      "sample_world (Inr [markdown_cell ''# title'', code_cell ''  '']) TimeoutExpired"
      "U ''nb''" "[]" "[markdown_cell ''# title'', code_cell ''  '']"]
  by (simp add: sample_defs)

section \<open>The code executor\<close>

lemma execute_notebook_message_nonempty:
  "snd (execute_notebook w p) = Some e \<Longrightarrow> e \<noteq> []"
  by (auto simp: execute_notebook_def U_Cons split: sum.splits run_result.splits if_splits)


text \<open>
  C4. Once the notebook is loaded and holds code, the executor returns the captured
  standard output, unchanged, exactly when the subprocess completes with exit code zero;
  when it completes with another exit code, the executor fails with the execution error
  followed by the captured standard error.
\<close>

theorem executor_exit_code:
  assumes "read_notebook w p = Inr cells" and "strip (full_code cells) \<noteq> []"
  shows "(\<forall>out. fst (execute_notebook w p) = Some out \<longleftrightarrow>
            (\<exists>process. subprocess_run w [sys_executable w, U ''-c'', full_code cells] 240 =
                         Completed process \<and>
                       returncode process = 0 \<and> out = stdout process)) \<and>
         (\<forall>process. subprocess_run w [sys_executable w, U ''-c'', full_code cells] 240 =
                       Completed process \<and> returncode process \<noteq> 0 \<longrightarrow>
            execute_notebook w p =
              (None, Some (U ''Code execution failed with an error:'' @ [10] @ stderr process)))"
  using assms by (auto simp: execute_notebook_def split: run_result.splits)

theorem executor_exit_code_witness:
  "fst (execute_notebook
          (sample_world (Inr [code_cell ''print(1)''])
             (Completed \<lparr>returncode = 0, stdout = U ''1'', stderr = U ''warn''\<rparr>)) (U ''nb'')) =
     Some (U ''1'') \<and>
   execute_notebook
     (sample_world (Inr [code_cell ''print(1)''])
        (Completed \<lparr>returncode = 1, stdout = U ''1'', stderr = U ''boom''\<rparr>)) (U ''nb'') =
     (None, Some (U ''Code execution failed with an error:'' @ [10] @ U ''boom''))"
proof -
  let ?cells = "[code_cell ''print(1)'']"
  let ?ok = "\<lparr>returncode = 0, stdout = U ''1'', stderr = U ''warn''\<rparr>"
  let ?bad = "\<lparr>returncode = 1, stdout = U ''1'', stderr = U ''boom''\<rparr>"
  have code: "strip (full_code ?cells) \<noteq> []"
    by (simp add: sample_defs)
  have r1: "read_notebook (sample_world (Inr ?cells) (Completed ?ok)) (U ''nb'') = Inr ?cells"
    by (simp add: sample_world_def)
  have r2: "read_notebook (sample_world (Inr ?cells) (Completed ?bad)) (U ''nb'') = Inr ?cells"
    by (simp add: sample_world_def)
  show ?thesis
    using executor_exit_code [OF r1 code] executor_exit_code [OF r2 code]
    by (simp add: sample_world_def)
qed



section \<open>The result extractor\<close>

lemma in_class_not_space: "in_class c \<Longrightarrow> \<not> isspace c"
  by (auto simp: in_class_def is_digit_def isspace_def)

lemma match_literal_append:
  "match_literal ps l = Some [] \<Longrightarrow> match_literal ps (l @ r) = Some r"
  by (induction ps l rule: match_literal.induct) (auto split: if_splits)

lemma match_literal_split:
  "match_literal ps s = Some r \<Longrightarrow>
     \<exists>l. s = l @ r \<and> length l = length ps \<and> match_literal ps l = Some []"
proof (induction ps s rule: match_literal.induct)
  case (1 s)
  then show ?case by simp
next
  case (2 p ps)
  then show ?case by simp
next
  case (3 p ps c cs)
  then have lit: "literal_ignore p c" and rec: "match_literal ps cs = Some r"
    by (auto split: if_splits)
  from 3(1) [OF lit rec] obtain l where
    l: "cs = l @ r" "length l = length ps" "match_literal ps l = Some []" by blast
  have "c # cs = (c # l) @ r \<and> length (c # l) = length (p # ps) \<and>
        match_literal (p # ps) (c # l) = Some []"
    using l lit by simp
  then show ?case by blast
qed



lemma length_label: "length label = 30"
  by (simp add: label_def U_def)

lemma match_at_Nil: "match_at i [] = None"
  by (simp add: match_at_def label_def U_def)

lemma match_at_start: "match_at i s = Some m \<Longrightarrow> m_start m = i"
  by (auto simp: match_at_def Let_def split: option.splits if_splits)

lemma match_at_shift:
  "match_at i s = Some m \<Longrightarrow> match_at j s = Some (m\<lparr>m_start := j\<rparr>)"
  by (auto simp: match_at_def Let_def split: option.splits if_splits)

lemma match_at_shift_None: "match_at i s = None \<Longrightarrow> match_at j s = None"
  by (auto simp: match_at_def Let_def split: option.splits if_splits)

text \<open>The anatomy of a successful attempt.\<close>

lemma match_at_anatomy:
  assumes "match_at i s = Some m"
  shows "\<exists>lab ws. s = lab @ ws @ group1 m @ m_rest m \<and> match_literal label lab = Some [] \<and>
           length lab = length label \<and> (\<forall>c \<in> set ws. isspace c) \<and> group1 m \<noteq> [] \<and>
           (\<forall>c \<in> set (group1 m). in_class c) \<and>
           (m_rest m = [] \<or> \<not> in_class (hd (m_rest m)))"
proof -
  from assms obtain r where r: "match_literal label s = Some r"
    by (auto simp: match_at_def split: option.splits)
  define r' where "r' = dropWhile isspace r"
  from assms r have g: "group1 m = takeWhile in_class r'" "m_rest m = dropWhile in_class r'"
    "takeWhile in_class r' \<noteq> []"
    by (auto simp: match_at_def Let_def r'_def split: if_splits)
  from match_literal_split [OF r] obtain lab where
    lab: "s = lab @ r" "length lab = length label" "match_literal label lab = Some []" by blast
  have r_split: "r = takeWhile isspace r @ r'" by (simp add: r'_def)
  have r'_split: "r' = group1 m @ m_rest m" by (simp add: g)
  have ws: "\<forall>c \<in> set (takeWhile isspace r). isspace c" by (meson set_takeWhileD)
  have gc: "\<forall>c \<in> set (group1 m). in_class c" unfolding g by (meson set_takeWhileD)
  have rest: "m_rest m = [] \<or> \<not> in_class (hd (m_rest m))"
    unfolding g using hd_dropWhile by blast
  have "s = lab @ takeWhile isspace r @ group1 m @ m_rest m"
    using lab(1) r_split r'_split by simp
  then show ?thesis using lab ws gc rest g(1,3) by metis
qed

text \<open>An attempt on a text that is the label, whitespace and a token.\<close>

lemma match_at_built:
  assumes lab: "match_literal label lab = Some []" and ws: "\<forall>c \<in> set ws. isspace c"
    and g: "g \<noteq> []" "\<forall>c \<in> set g. in_class c" and rest: "rest = [] \<or> \<not> in_class (hd rest)"
  shows "match_at i (lab @ ws @ g @ rest) = Some \<lparr>m_start = i, group1 = g, m_rest = rest\<rparr>"
proof -
  have l: "match_literal label (lab @ ws @ g @ rest) = Some (ws @ g @ rest)"
    using lab by (rule match_literal_append)
  have hg: "\<not> isspace (hd g)" using g by (simp add: in_class_not_space)
  have d: "dropWhile isspace (ws @ g @ rest) = g @ rest"
  proof -
    have "dropWhile isspace (ws @ (g @ rest)) = dropWhile isspace (g @ rest)"
      using ws by (simp add: dropWhile_append2)
    also have "\<dots> = g @ rest" using g(1) hg by (cases g) auto
    finally show ?thesis .
  qed
  have t: "takeWhile in_class (g @ rest) = g"
    using g(2) rest by (cases rest) (auto simp: takeWhile_append2)
  have dr: "dropWhile in_class (g @ rest) = rest"
    using g(2) rest by (cases rest) (auto simp: dropWhile_append2)
  show ?thesis using g(1) by (simp add: match_at_def l d t dr)
qed


lemma search_from_anatomy:
  "search_from i s = Some m \<Longrightarrow>
     \<exists>k. k \<le> length s \<and> m_start m = i + k \<and> match_at (i + k) (drop k s) = Some m \<and>
         (\<forall>j < k. match_at (i + j) (drop j s) = None)"
proof (induction s arbitrary: i)
  case Nil
  then show ?case by (simp add: match_at_Nil)
next
  case (Cons c cs)
  show ?case
  proof (cases "match_at i (c # cs)")
    case (Some m')
    with Cons.prems have "m' = m" by simp
    with Some have "0 \<le> length (c # cs) \<and> m_start m = i + 0 \<and>
        match_at (i + 0) (drop 0 (c # cs)) = Some m \<and>
        (\<forall>j < 0. match_at (i + j) (drop j (c # cs)) = None)"
      by (simp add: match_at_start)
    then show ?thesis by blast
  next
    case None
    with Cons.prems have "search_from (Suc i) cs = Some m" by simp
    from Cons.IH [OF this] obtain k where k: "k \<le> length cs" "m_start m = Suc i + k"
      "match_at (Suc i + k) (drop k cs) = Some m"
      "\<forall>j < k. match_at (Suc i + j) (drop j cs) = None" by blast
    have "\<forall>j < Suc k. match_at (i + j) (drop j (c # cs)) = None"
    proof (intro allI impI)
      fix j assume "j < Suc k"
      then show "match_at (i + j) (drop j (c # cs)) = None"
        using None k(4) by (cases j) auto
    qed
    then have "Suc k \<le> length (c # cs) \<and> m_start m = i + Suc k \<and>
        match_at (i + Suc k) (drop (Suc k) (c # cs)) = Some m \<and>
        (\<forall>j < Suc k. match_at (i + j) (drop j (c # cs)) = None)"
      using k by simp
    then show ?thesis by blast
  qed
qed

lemma search_from_None:
  "search_from i s = None \<Longrightarrow> k \<le> length s \<Longrightarrow> match_at (i + k) (drop k s) = None"
proof (induction s arbitrary: i k)
  case Nil
  then show ?case by (simp add: match_at_Nil)
next
  case (Cons c cs)
  then have a: "match_at i (c # cs) = None" and b: "search_from (Suc i) cs = None"
    by (auto split: option.splits)
  show ?case
  proof (cases k)
    case 0
    then show ?thesis using a by simp
  next
    case (Suc k')
    then show ?thesis using Cons.IH [OF b, of k'] Cons.prems(2) by simp
  qed
qed


lemma search_from_found:
  "k \<le> length s \<Longrightarrow> match_at (i + k) (drop k s) = Some m \<Longrightarrow>
     \<exists>m'. search_from i s = Some m' \<and> m_start m' \<le> i + k"
proof (induction k arbitrary: i s)
  case 0
  then have "search_from i s = Some m" by (cases s) (auto simp: match_at_Nil)
  then show ?case using 0 by (auto simp: match_at_start)
next
  case (Suc k)
  then obtain c cs where s: "s = c # cs" by (cases s) auto
  show ?case
  proof (cases "match_at i (c # cs)")
    case None
    have "\<exists>m'. search_from (Suc i) cs = Some m' \<and> m_start m' \<le> Suc i + k"
      using Suc.prems s by (intro Suc.IH) auto
    then show ?thesis using None s by simp
  next
    case (Some m')
    then show ?thesis using s by (auto simp: match_at_start)
  qed
qed




lemma re_search_Some_iff:
  "re_search out \<noteq> None \<longleftrightarrow>
     (\<exists>pre lab ws g rest. out = pre @ lab @ ws @ g @ rest \<and> match_literal label lab = Some [] \<and>
        (\<forall>c \<in> set ws. isspace c) \<and> g \<noteq> [] \<and> (\<forall>c \<in> set g. in_class c))"
proof
  assume "re_search out \<noteq> None"
  then obtain m where s: "search_from 0 out = Some m" by (auto simp: re_search_def)
  from search_from_anatomy [OF s] obtain k where k: "match_at (0 + k) (drop k out) = Some m"
    by blast
  from match_at_anatomy [OF k] obtain lab ws where
    "drop k out = lab @ ws @ group1 m @ m_rest m" "match_literal label lab = Some []"
    "\<forall>c \<in> set ws. isspace c" "group1 m \<noteq> []" "\<forall>c \<in> set (group1 m). in_class c" by blast
  moreover have "out = take k out @ drop k out" by simp
  ultimately show "\<exists>pre lab ws g rest. out = pre @ lab @ ws @ g @ rest \<and>
      match_literal label lab = Some [] \<and> (\<forall>c \<in> set ws. isspace c) \<and> g \<noteq> [] \<and>
      (\<forall>c \<in> set g. in_class c)" by metis
next
  assume "\<exists>pre lab ws g rest. out = pre @ lab @ ws @ g @ rest \<and>
      match_literal label lab = Some [] \<and> (\<forall>c \<in> set ws. isspace c) \<and> g \<noteq> [] \<and>
      (\<forall>c \<in> set g. in_class c)"
  then obtain pre lab ws g rest where o: "out = pre @ lab @ ws @ g @ rest"
    "match_literal label lab = Some []" "\<forall>c \<in> set ws. isspace c" "g \<noteq> []"
    "\<forall>c \<in> set g. in_class c" by blast
  define g' where "g' = g @ takeWhile in_class rest"
  define rest' where "rest' = dropWhile in_class rest"
  have gr: "g @ rest = g' @ rest'" by (simp add: g'_def rest'_def)
  have g'1: "g' \<noteq> []" using o(4) by (simp add: g'_def)
  have g'2: "\<forall>c \<in> set g'. in_class c" using o(5) by (auto simp: g'_def dest: set_takeWhileD)
  have r'1: "rest' = [] \<or> \<not> in_class (hd rest')" unfolding rest'_def using hd_dropWhile by blast
  have "match_at (0 + length pre) (lab @ ws @ g' @ rest') =
          Some \<lparr>m_start = 0 + length pre, group1 = g', m_rest = rest'\<rparr>"
    using o(2) o(3) g'1 g'2 r'1 by (rule match_at_built)
  moreover have "drop (length pre) out = lab @ ws @ g' @ rest'" using o(1) gr by simp
  ultimately have "match_at (0 + length pre) (drop (length pre) out) =
      Some \<lparr>m_start = 0 + length pre, group1 = g', m_rest = rest'\<rparr>" by simp
  moreover have "length pre \<le> length out" using o(1) by simp
  ultimately have "\<exists>m'. search_from 0 out = Some m' \<and> m_start m' \<le> 0 + length pre"
    by (rule search_from_found [rotated])
  then show "re_search out \<noteq> None" by (auto simp: re_search_def)
qed





lemmas regex_defs =
  re_search_def match_at_def label_def U_def literal_ignore_def ascii_lower_def isspace_def
  in_class_def is_digit_def









section \<open>The report\<close>



section \<open>Rounding to binary64\<close>

lemma bitlen_nonneg: "0 \<le> bitlen n"
  by (induction n rule: bitlen.induct) (subst bitlen.simps, auto)

lemma bitlen_pos: "0 < n \<Longrightarrow> 0 < bitlen n"
  using bitlen_nonneg [of "n div 2"] by (subst bitlen.simps) auto

lemma bitlen_bounds:
  "0 < n \<Longrightarrow> 2 ^ nat (bitlen n - 1) \<le> n \<and> n < 2 ^ nat (bitlen n)"
proof (induction n rule: bitlen.induct)
  case (1 n)
  show ?case
  proof (cases "n = 1")
    case True
    then show ?thesis by (simp add: bitlen.simps [of 1] bitlen.simps [of 0])
  next
    case False
    with 1 have h: "0 < n div 2" by simp
    from 1 h have ih: "2 ^ nat (bitlen (n div 2) - 1) \<le> n div 2 \<and>
        n div 2 < 2 ^ nat (bitlen (n div 2))"
      by simp
    have b: "bitlen n = 1 + bitlen (n div 2)" using 1(2) by (subst bitlen.simps) simp
    have p: "0 < bitlen (n div 2)" using h by (rule bitlen_pos)
    have e1: "nat (bitlen n - 1) = Suc (nat (bitlen (n div 2) - 1))" using b p by simp
    have e2: "nat (bitlen n) = Suc (nat (bitlen (n div 2)))" using b p by simp
    show ?thesis unfolding e1 e2 using ih by auto
  qed
qed

lemma bitlen_powi:
  assumes "0 < n"
  shows "(2::rat) powi (bitlen n - 1) \<le> of_int n \<and> (of_int n :: rat) < 2 powi (bitlen n)"
proof -
  note b = bitlen_bounds [OF assms] and p = bitlen_pos [OF assms]
  have "(of_int (2 ^ nat (bitlen n - 1)) :: rat) \<le> of_int n"
    using b by (simp only: of_int_le_iff)
  moreover have "(of_int n :: rat) < of_int (2 ^ nat (bitlen n))"
    using b by (simp only: of_int_less_iff)
  ultimately show ?thesis using p by (simp add: power_int_def)
qed

lemma ilog2_bounds:
  assumes "q \<noteq> 0"
  shows "2 powi (ilog2 q) \<le> \<bar>q\<bar> \<and> \<bar>q\<bar> < 2 powi (ilog2 q + 1)"
proof -
  obtain p d where pd: "quotient_of q = (p, d)" by (cases "quotient_of q")
  have d: "0 < d" using pd by (rule quotient_of_denom_pos)
  have q: "q = of_int p / of_int d" using pd by (rule quotient_of_div)
  have p: "0 < \<bar>p\<bar>" using assms q by auto
  define k where "k = bitlen \<bar>p\<bar> - bitlen d"
  have aq: "\<bar>q\<bar> = of_int \<bar>p\<bar> / of_int d" using q d by simp
  note P = bitlen_powi [OF p] and D = bitlen_powi [OF d]
  have dpos: "(0::rat) < of_int d" using d by simp
  have lo: "(2::rat) powi (k - 1) \<le> \<bar>q\<bar>"
  proof -
    have "(2::rat) powi (k - 1) = 2 powi (bitlen \<bar>p\<bar> - 1) / 2 powi (bitlen d)"
      by (simp add: k_def power_int_diff [symmetric] algebra_simps)
    also have "\<dots> \<le> of_int \<bar>p\<bar> / of_int d"
      by (rule frac_le) (use P D dpos in auto)
    finally show ?thesis by (simp only: aq)
  qed
  have hi: "\<bar>q\<bar> < (2::rat) powi (k + 1)"
  proof -
    have "\<bar>q\<bar> = of_int \<bar>p\<bar> / of_int d" by (rule aq)
    also have "\<dots> < 2 powi (bitlen \<bar>p\<bar>) / 2 powi (bitlen d - 1)"
      by (rule frac_less) (use P D dpos in auto)
    also have "\<dots> = (2::rat) powi (k + 1)"
      by (simp add: k_def power_int_diff [symmetric] algebra_simps)
    finally show ?thesis .
  qed
  have il: "ilog2 q = (if 2 powi k \<le> \<bar>q\<bar> then k else k - 1)"
    by (simp add: ilog2_def pd k_def)
  show ?thesis using lo hi by (auto simp: il)
qed

lemma powi2_less_iff: "(2::rat) powi a < 2 powi b \<longleftrightarrow> a < b"
proof
  assume "(2::rat) powi a < 2 powi b"
  show "a < b"
  proof (rule ccontr)
    assume "\<not> a < b"
    then have "b \<le> a" by simp
    then have "(2::rat) powi b \<le> 2 powi a" by (intro power_int_increasing) auto
    with \<open>(2::rat) powi a < 2 powi b\<close> show False by simp
  qed
next
  assume "a < b"
  then show "(2::rat) powi a < 2 powi b" by (intro power_int_strict_increasing) auto
qed

lemma powi2_le_iff: "(2::rat) powi a \<le> 2 powi b \<longleftrightarrow> a \<le> b"
  using powi2_less_iff [of b a] by (auto simp: not_less [symmetric])

lemma ilog2_unique:
  assumes "2 powi e \<le> \<bar>q\<bar>" and "\<bar>q\<bar> < 2 powi (e + 1)"
  shows "ilog2 q = e"
proof -
  have pos: "(0::rat) < 2 powi e" by simp
  have "0 < \<bar>q\<bar>" using assms(1) pos by (rule less_le_trans [rotated])
  then have q0: "q \<noteq> 0" by simp
  note b = ilog2_bounds [OF q0]
  have "(2::rat) powi (ilog2 q) < 2 powi (e + 1)" using b assms(2) by linarith
  then have 1: "ilog2 q < e + 1" by (simp only: powi2_less_iff)
  have "(2::rat) powi e < 2 powi (ilog2 q + 1)" using b assms(1) by linarith
  then have 2: "e < ilog2 q + 1" by (simp only: powi2_less_iff)
  from 1 2 show ?thesis by simp
qed

lemma ilog2_mono:
  assumes "x \<noteq> 0" and "\<bar>x\<bar> \<le> \<bar>y\<bar>"
  shows "ilog2 x \<le> ilog2 y"
proof -
  have y0: "y \<noteq> 0" using assms by auto
  note bx = ilog2_bounds [OF assms(1)] and bz = ilog2_bounds [OF y0]
  have "(2::rat) powi (ilog2 x) < 2 powi (ilog2 y + 1)" using bx bz assms(2) by linarith
  then have "ilog2 x < ilog2 y + 1" by (simp only: powi2_less_iff)
  then show ?thesis by simp
qed

lemma round_half_even_of_int: "round_half_even (of_int n) = n"
  by (simp add: round_half_even_def)

lemma round_half_even_le: "x \<le> of_int n \<Longrightarrow> round_half_even x \<le> n"
proof -
  assume a: "x \<le> of_int n"
  show ?thesis
  proof (cases "x = of_int n")
    case True
    then show ?thesis by (simp add: round_half_even_of_int)
  next
    case False
    with a have "x < of_int n" by simp
    then have "\<lfloor>x\<rfloor> < n" by (simp add: floor_less_iff)
    then show ?thesis by (auto simp: round_half_even_def Let_def)
  qed
qed

lemma round_half_even_ge: "of_int n \<le> x \<Longrightarrow> n \<le> round_half_even x"
proof -
  assume "of_int n \<le> x"
  then have "n \<le> \<lfloor>x\<rfloor>" by (simp add: le_floor_iff)
  then show ?thesis by (auto simp: round_half_even_def Let_def)
qed

lemma ulp_pos: "0 < ulp q"
  by (simp add: ulp_def)

lemma ulp_mono: "x \<noteq> 0 \<Longrightarrow> \<bar>x\<bar> \<le> \<bar>y\<bar> \<Longrightarrow> ulp x \<le> ulp y"
  using ilog2_mono [of x y] by (simp add: ulp_def powi2_le_iff)

text \<open>A quotient of two spacings, the larger on top, is a whole number.\<close>

lemma powi2_quotient_int:
  assumes "a \<le> b"
  shows "(2::rat) powi b / 2 powi a = of_int (2 ^ nat (b - a))"
proof -
  have "(2::rat) powi b / 2 powi a = 2 powi (b - a)" by (simp add: power_int_diff)
  also have "\<dots> = 2 ^ nat (b - a)" using assms by (simp add: power_int_def)
  finally show ?thesis by simp
qed

lemma rnd_range:
  assumes q: "0 \<le> q" "q \<le> c" and c: "is_double c"
  shows "\<exists>r. rnd q = Fin r \<and> 0 \<le> r \<and> r \<le> c"
proof (cases "q = 0")
  case True
  then show ?thesis using q by (simp add: rnd_def)
next
  case False
  then have qpos: "0 < q" using q by simp
  then have cpos: "0 < c" using q by simp
  from c cpos have c1: "\<bar>c\<bar> < 2 ^ 1024" and c2: "of_int \<lfloor>c / ulp c\<rfloor> = c / ulp c"
    by (auto simp: is_double_def)
  define n where "n = \<lfloor>c / ulp c\<rfloor>"
  have e: "c / ulp c * ulp c = c" using ulp_pos [of c] by simp
  have cn: "c = of_int n * ulp c" unfolding n_def c2 by (rule e [symmetric])
  have le: "max (ilog2 q) (- 1022) \<le> max (ilog2 c) (- 1022)"
    using ilog2_mono [of q c] False qpos q by simp
  have uq: "ulp c / ulp q = of_int (2 ^ nat (max (ilog2 c) (- 1022) - max (ilog2 q) (- 1022)))"
    unfolding ulp_def using le
    by (subst powi2_quotient_int [symmetric]) (simp_all add: power_int_diff)
  define k where "k = n * 2 ^ nat (max (ilog2 c) (- 1022) - max (ilog2 q) (- 1022))"
  have ck: "c / ulp q = of_int k"
  proof -
    have "c / ulp q = of_int n * (ulp c / ulp q)" using cn by simp
    also have "\<dots> = of_int k" by (simp add: uq k_def)
    finally show ?thesis .
  qed
  have "q / ulp q \<le> c / ulp q" using q ulp_pos [of q] by (simp add: divide_right_mono)
  then have r1: "round_half_even (q / ulp q) \<le> k" by (simp add: ck round_half_even_le)
  have "of_int 0 \<le> q / ulp q" using q ulp_pos [of q] by simp
  then have r0: "0 \<le> round_half_even (q / ulp q)" by (rule round_half_even_ge)
  define r where "r = of_int (round_half_even (q / ulp q)) * ulp q"
  have rge: "0 \<le> r" using r0 ulp_pos [of q] by (simp add: r_def)
  have "r \<le> of_int k * ulp q"
    unfolding r_def using r1 ulp_pos [of q] by (simp add: mult_right_mono)
  also have "\<dots> = c" using ck ulp_pos [of q] by (simp add: field_simps)
  finally have rle: "r \<le> c" .
  have "\<bar>r\<bar> < 2 ^ 1024" using rge rle c1 cpos by linarith
  then have "rnd q = Fin r" using False by (simp add: rnd_def r_def Let_def)
  then show ?thesis using rge rle by blast
qed

lemma rnd_nonneg:
  assumes "0 \<le> q"
  shows "rnd q = PInf \<or> (\<exists>r. rnd q = Fin r \<and> 0 \<le> r)"
proof (cases "q = 0")
  case True
  then show ?thesis by (simp add: rnd_def)
next
  case False
  have "of_int 0 \<le> q / ulp q" using assms ulp_pos [of q] by simp
  then have "0 \<le> round_half_even (q / ulp q)" by (rule round_half_even_ge)
  then have "0 \<le> of_int (round_half_even (q / ulp q)) * ulp q"
    using ulp_pos [of q] by simp
  then show ?thesis using False assms by (auto simp: rnd_def Let_def)
qed

lemma ulp_eval:
  assumes "2 powi e \<le> \<bar>q\<bar>" and "\<bar>q\<bar> < 2 powi (e + 1)" and "- 1022 \<le> e"
  shows "ulp q = 2 powi (e - 52)"
  using ilog2_unique [OF assms(1,2)] assms(3) by (simp add: ulp_def)

lemma rnd_eval:
  assumes lo: "2 powi e \<le> \<bar>q\<bar>" and hi: "\<bar>q\<bar> < 2 powi (e + 1)"
    and e: "- 1022 \<le> e" "e \<le> 1022"
  shows "rnd q = Fin (of_int (round_half_even (q / 2 powi (e - 52))) * 2 powi (e - 52))"
proof -
  define u :: rat where "u = 2 powi (e - 52)"
  have u: "ulp q = u" unfolding u_def using lo hi e(1) by (rule ulp_eval)
  have upos: "0 < u" by (simp add: u_def)
  have q0: "q \<noteq> 0"
  proof
    assume "q = 0"
    then have "(2::rat) powi e \<le> 0" using lo by simp
    moreover have "(0::rat) < 2 powi e" by simp
    ultimately show False by linarith
  qed
  have top: "(2::rat) powi (e + 1) = of_int (2 ^ 53) * u"
  proof -
    have "(2::rat) powi (53 + (e - 52)) = 2 powi 53 * 2 powi (e - 52)"
      by (rule power_int_add) simp
    moreover have "53 + (e - 52) = e + 1" by simp
    ultimately have "(2::rat) powi (e + 1) = 2 powi 53 * 2 powi (e - 52)" by simp
    then show ?thesis by (simp add: u_def)
  qed
  have "\<bar>q\<bar> / u < of_int (2 ^ 53)"
    using hi upos by (simp add: top pos_divide_less_eq)
  then have "\<bar>q / u\<bar> < of_int (2 ^ 53)" using upos by simp
  then have "q / u < of_int (2 ^ 53) \<and> - (q / u) < of_int (2 ^ 53)"
    by (simp only: abs_less_iff)
  then have b: "q / u \<le> of_int (2 ^ 53)" "of_int (- (2 ^ 53)) \<le> q / u"
    by (simp_all only: of_int_minus) linarith+
  have r1: "round_half_even (q / u) \<le> 2 ^ 53" using b(1) by (rule round_half_even_le)
  have r2: "- (2 ^ 53) \<le> round_half_even (q / u)" using b(2) by (rule round_half_even_ge)
  have "\<bar>of_int (round_half_even (q / u)) :: rat\<bar> \<le> of_int (2 ^ 53)"
    using r1 r2 by (simp only: of_int_abs [symmetric] of_int_le_iff)
  then have "\<bar>of_int (round_half_even (q / u)) * u\<bar> \<le> of_int (2 ^ 53) * u"
    using upos by (simp add: abs_mult mult_right_mono)
  also have "\<dots> = 2 powi (e + 1)" by (simp only: top)
  also have "\<dots> \<le> 2 powi 1023" using e(2) by (intro power_int_increasing) simp_all
  also have "\<dots> < (2::rat) ^ 1024" by (simp add: power_int_def)
  finally have "\<not> 2 ^ 1024 \<le> \<bar>of_int (round_half_even (q / u)) * u\<bar>" by simp
  then show ?thesis using q0 by (simp add: rnd_def u Let_def u_def)
qed

lemma is_double_eval:
  assumes "2 powi e \<le> \<bar>c\<bar>" and "\<bar>c\<bar> < 2 powi (e + 1)" and "- 1022 \<le> e" "e \<le> 1023"
    and "of_int \<lfloor>c / 2 powi (e - 52)\<rfloor> = c / 2 powi (e - 52)"
  shows "is_double c"
proof -
  have "(2::rat) powi (e + 1) \<le> 2 powi 1024" using assms(4) by (intro power_int_increasing) simp_all
  also have "\<dots> = (2::rat) ^ 1024" by (simp add: power_int_def)
  finally have "\<bar>c\<bar> < 2 ^ 1024" using assms(2) by simp
  then show ?thesis using assms(5) ulp_eval [OF assms(1,2,3)] by (simp add: is_double_def)
qed

lemma floor_rat_numeral:
  "\<lfloor>numeral a / numeral b :: rat\<rfloor> = numeral a div numeral b"
  by (metis floor_divide_of_int_eq of_int_numeral)

lemma floor_rat_minus_numeral:
  "\<lfloor>- (numeral a / numeral b) :: rat\<rfloor> = - numeral a div numeral b"
  by (metis divide_minus_left floor_divide_of_int_eq of_int_neg_numeral of_int_numeral)

lemmas rat_eval =
  round_half_even_def power_int_minus inverse_eq_divide Let_def
  floor_rat_numeral floor_rat_minus_numeral

lemma TOLERANCE_value: "TOLERANCE = Fin (3602879701896397 / 36028797018963968)"
  unfolding TOLERANCE_def
  by (subst rnd_eval [of "- 4"]) (simp_all add: rat_eval)

lemma OPTIMAL_CD_value: "OPTIMAL_CD = Fin (2705339317759221 / 9007199254740992)"
  unfolding OPTIMAL_CD_def
  by (subst rnd_eval [of "- 2"]) (simp_all add: rat_eval)

lemma one_minus_TOLERANCE:
  "fsub (Fin 1) TOLERANCE = Fin (8106479329266893 / 9007199254740992)"
  unfolding TOLERANCE_value
  by (simp, subst rnd_eval [of "- 1"]) (simp_all add: rat_eval)

lemma rnd_nine_tenths: "rnd (9 / 10) = Fin (8106479329266893 / 9007199254740992)"
  by (subst rnd_eval [of "- 1"]) (simp_all add: rat_eval)

lemma is_double_1: "is_double 1"
  by (rule is_double_eval [of 0]) (simp_all add: rat_eval)

lemma is_double_10: "is_double 10"
  by (rule is_double_eval [of 3]) (simp_all add: rat_eval)

lemma is_double_09: "is_double (8106479329266893 / 9007199254740992)"
  by (rule is_double_eval [of "- 1"]) (simp_all add: rat_eval)

section \<open>The scorer\<close>

lemma rnd_not_NaN: "rnd q \<noteq> NaN"
  by (simp add: rnd_def Let_def)

lemma dec_val_foldl_nonneg:
  "\<forall>c \<in> set ds. is_digit c \<Longrightarrow> 0 \<le> a \<Longrightarrow>
     0 \<le> foldl (\<lambda>a c. 10 * a + (int c - 48)) a ds"
  by (induction ds arbitrary: a) (auto simp: is_digit_def)

lemma dec_val_nonneg: "\<forall>c \<in> set ds. is_digit c \<Longrightarrow> 0 \<le> dec_val ds"
  by (simp add: dec_val_def dec_val_foldl_nonneg)

lemma py_float_nonneg:
  assumes "py_float t = Some v"
  shows "v = PInf \<or> (\<exists>a. v = Fin a \<and> 0 \<le> a)"
proof -
  have ip: "\<forall>c \<in> set (takeWhile is_digit t). is_digit c" by (meson set_takeWhileD)
  from assms obtain q where q: "v = rnd q" "0 \<le> q"
  proof (cases "dropWhile is_digit t")
    case Nil
    with assms have "v = rnd (of_int (dec_val (takeWhile is_digit t)))"
      by (auto simp: py_float_def Let_def split: if_splits)
    moreover have "(0::rat) \<le> of_int (dec_val (takeWhile is_digit t))"
      using dec_val_nonneg [OF ip] by simp
    ultimately show ?thesis using that by blast
  next
    case (Cons c fp)
    with assms have fp: "list_all is_digit fp"
      and v: "v = rnd (of_int (dec_val (takeWhile is_digit t @ fp)) / 10 ^ length fp)"
      by (auto simp: py_float_def Let_def split: if_splits)
    have "\<forall>c \<in> set (takeWhile is_digit t @ fp). is_digit c"
      using ip fp by (auto simp: list_all_iff)
    then have "0 \<le> dec_val (takeWhile is_digit t @ fp)" by (rule dec_val_nonneg)
    then have "(0::rat) \<le> of_int (dec_val (takeWhile is_digit t @ fp)) / 10 ^ length fp"
      by simp
    then show ?thesis using that v by blast
  qed
  from rnd_nonneg [OF q(2)] show ?thesis by (simp add: q(1))
qed

lemma OPTIMAL_CD_pos: "\<exists>c. OPTIMAL_CD = Fin c \<and> 0 < c"
  by (rule exI [of _ "2705339317759221 / 9007199254740992"]) (simp add: OPTIMAL_CD_value)

lemma error_cases:
  assumes "v = PInf \<or> (\<exists>a. v = Fin a \<and> 0 \<le> a)"
  shows "fdiv (fabs (fsub v OPTIMAL_CD)) OPTIMAL_CD = PInf \<or>
         (\<exists>e. fdiv (fabs (fsub v OPTIMAL_CD)) OPTIMAL_CD = Fin e \<and> 0 \<le> e)"
proof -
  from OPTIMAL_CD_pos obtain c where c: "OPTIMAL_CD = Fin c" "0 < c" by blast
  have "fabs (fsub v (Fin c)) = PInf \<or> (\<exists>x. fabs (fsub v (Fin c)) = Fin x \<and> 0 \<le> x)"
  proof (cases v)
    case (Fin a)
    then show ?thesis using rnd_not_NaN [of "a - c"] by (cases "rnd (a - c)") auto
  qed (use assms in auto)
  then have "fdiv (fabs (fsub v (Fin c))) (Fin c) = PInf \<or>
      (\<exists>e. fdiv (fabs (fsub v (Fin c))) (Fin c) = Fin e \<and> 0 \<le> e)"
  proof
    assume "fabs (fsub v (Fin c)) = PInf"
    then show ?thesis using c(2) by simp
  next
    assume "\<exists>x. fabs (fsub v (Fin c)) = Fin x \<and> 0 \<le> x"
    then obtain x where x: "fabs (fsub v (Fin c)) = Fin x" "0 \<le> x" by blast
    have "0 \<le> x / c" using x(2) c(2) by simp
    from rnd_nonneg [OF this] show ?thesis using x(1) c(2) by auto
  qed
  then show ?thesis by (simp only: c(1))
qed

lemma middle_score_range:
  assumes "\<not> fle (Fin e) TOLERANCE" and "flt (Fin e) (Fin 1)"
  shows "\<exists>s. fmul (Fin 10)
              (fsub (Fin 1) (fdiv (fsub (Fin e) TOLERANCE) (fsub (Fin 1) TOLERANCE))) = Fin s \<and>
            0 \<le> s \<and> s \<le> 10"
proof -
  let ?t = "3602879701896397 / 36028797018963968 :: rat"
  let ?d = "8106479329266893 / 9007199254740992 :: rat"
  from assms have e: "?t < e" "e < 1" by (simp_all add: TOLERANCE_value)
  have "0 \<le> e - ?t" "e - ?t \<le> ?d" using e by simp_all
  from rnd_range [OF this is_double_09] obtain r1 where
    r1: "rnd (e - ?t) = Fin r1" "0 \<le> r1" "r1 \<le> ?d" by blast
  have "0 \<le> r1 / ?d" "r1 / ?d \<le> 1" using r1(2,3) by simp_all
  from rnd_range [OF this is_double_1] obtain r2 where
    r2: "rnd (r1 / ?d) = Fin r2" "0 \<le> r2" "r2 \<le> 1" by blast
  have "0 \<le> 1 - r2" "1 - r2 \<le> 1" using r2(2,3) by simp_all
  from rnd_range [OF this is_double_1] obtain r3 where
    r3: "rnd (1 - r2) = Fin r3" "0 \<le> r3" "r3 \<le> 1" by blast
  have "0 \<le> 10 * r3" "10 * r3 \<le> 10" using r3(2,3) by simp_all
  from rnd_range [OF this is_double_10] obtain r4 where
    r4: "rnd (10 * r3) = Fin r4" "0 \<le> r4" "r4 \<le> 10" by blast
  have s1: "fsub (Fin e) TOLERANCE = Fin r1"
    by (simp only: TOLERANCE_value fsub.simps r1)
  have d0: "?d \<noteq> 0" by simp
  have s2: "fdiv (Fin r1) (Fin ?d) = Fin r2"
    by (simp only: fdiv.simps d0 if_False r2(1))
  have s3: "fsub (Fin 1) (Fin r2) = Fin r3"
    by (simp only: fsub.simps r3)
  have s4: "fmul (Fin 10) (Fin r3) = Fin r4"
    by (simp only: fmul.simps r4)
  have "fmul (Fin 10)
          (fsub (Fin 1) (fdiv (fsub (Fin e) TOLERANCE) (fsub (Fin 1) TOLERANCE))) = Fin r4"
    by (simp only: one_minus_TOLERANCE s1 s2 s3 s4)
  then show ?thesis using r4 by blast
qed

lemma py_round_range:
  assumes "0 \<le> s" and "s \<le> 10"
  shows "\<exists>q k. py_round (Fin s) 2 = Fin q \<and> 0 \<le> q \<and> q \<le> 10 \<and> 0 \<le> k \<and> k \<le> 1000 \<and>
           Fin q = rnd (of_int k / 100)"
proof -
  define k where "k = round_half_even (s * 10\<^sup>2)"
  have "of_int 0 \<le> s * 10\<^sup>2" using assms(1) by simp
  then have k0: "0 \<le> k" unfolding k_def by (rule round_half_even_ge)
  have "s * 10\<^sup>2 \<le> of_int 1000" using assms(2) by simp
  then have k1: "k \<le> 1000" unfolding k_def by (rule round_half_even_le)
  have "(0::rat) \<le> of_int k / 100" "(of_int k :: rat) / 100 \<le> 10" using k0 k1 by simp_all
  from rnd_range [OF this is_double_10] obtain q where
    q: "rnd (of_int k / 100) = Fin q" "0 \<le> q" "q \<le> 10" by blast
  have "py_round (Fin s) 2 = Fin q" using q(1) by (simp add: k_def)
  then show ?thesis using q k0 k1 by metis
qed

lemma score_expression_range:
  assumes "error = PInf \<or> (\<exists>e. error = Fin e \<and> 0 \<le> e)"
  shows "\<exists>s. (if fle error TOLERANCE then Fin 10
              else if flt error (Fin 1) then
                fmul (Fin 10)
                  (fsub (Fin 1) (fdiv (fsub error TOLERANCE) (fsub (Fin 1) TOLERANCE)))
              else Fin 0) = Fin s \<and> 0 \<le> s \<and> s \<le> 10"
proof (cases error)
  case (Fin e)
  then show ?thesis using middle_score_range [of e] by auto
qed (use assms in \<open>auto simp: TOLERANCE_value\<close>)

lemma grade_result_graded:
  assumes "re_search out = Some m" and "py_float (group1 m) = Some v"
  shows "fst (grade_result (Some out)) =
     PyFloat (py_round
       (if fle (fdiv (fabs (fsub v OPTIMAL_CD)) OPTIMAL_CD) TOLERANCE then Fin 10
        else if flt (fdiv (fabs (fsub v OPTIMAL_CD)) OPTIMAL_CD) (Fin 1) then
          fmul (Fin 10)
            (fsub (Fin 1)
               (fdiv (fsub (fdiv (fabs (fsub v OPTIMAL_CD)) OPTIMAL_CD) TOLERANCE)
                  (fsub (Fin 1) TOLERANCE)))
        else Fin 0) 2)"
  using assms by (simp add: grade_result_def Let_def)

text \<open>
  C9. Whatever the captured output is, or when there is none, the score of \<open>grade_result\<close>
  is the integer 0 or a finite float; it lies between 0 and 10; and it is the float
  nearest to a decimal with two places, \<open>k/100\<close> for a whole \<open>k\<close> from 0 to 1000.
\<close>

theorem score_in_range_two_decimals:
  "\<exists>q k. (fst (grade_result output) = PyInt 0 \<or> fst (grade_result output) = PyFloat (Fin q)) \<and>
     0 \<le> q \<and> q \<le> 10 \<and> 0 \<le> k \<and> k \<le> 1000 \<and> Fin q = rnd (of_int k / 100)"
proof -
  have zero: "\<exists>q k. (PyInt 0 = PyInt 0 \<or> PyInt 0 = PyFloat (Fin q)) \<and>
     0 \<le> q \<and> q \<le> 10 \<and> 0 \<le> k \<and> k \<le> 1000 \<and> Fin q = rnd (of_int k / 100)"
    by (rule exI [of _ 0], rule exI [of _ 0]) (simp add: rnd_def)
  show ?thesis
  proof (cases "output")
    case None
    then show ?thesis using zero by (simp add: grade_result_def)
  next
    case (Some out)
    show ?thesis
    proof (cases "re_search out")
      case None
      then show ?thesis using zero Some by (simp add: grade_result_def)
    next
      case m: (Some m)
      show ?thesis
      proof (cases "py_float (group1 m)")
        case None
        then show ?thesis using zero Some m by (simp add: grade_result_def)
      next
        case v: (Some v)
        define error where "error = fdiv (fabs (fsub v OPTIMAL_CD)) OPTIMAL_CD"
        have "error = PInf \<or> (\<exists>e. error = Fin e \<and> 0 \<le> e)"
          unfolding error_def using py_float_nonneg [OF v] by (rule error_cases)
        from score_expression_range [OF this] obtain s where
          s: "(if fle error TOLERANCE then Fin 10
               else if flt error (Fin 1) then
                 fmul (Fin 10)
                   (fsub (Fin 1) (fdiv (fsub error TOLERANCE) (fsub (Fin 1) TOLERANCE)))
               else Fin 0) = Fin s" "0 \<le> s" "s \<le> 10" by blast
        have g: "fst (grade_result output) =
            PyFloat (py_round
              (if fle error TOLERANCE then Fin 10
               else if flt error (Fin 1) then
                 fmul (Fin 10)
                   (fsub (Fin 1) (fdiv (fsub error TOLERANCE) (fsub (Fin 1) TOLERANCE)))
               else Fin 0) 2)"
          by (simp only: Some grade_result_graded [OF m v] error_def)
        have "fst (grade_result output) = PyFloat (py_round (Fin s) 2)"
          using g by (simp only: s(1))
        then show ?thesis using py_round_range [OF s(2,3)] by auto
      qed
    qed
  qed
qed

lemma py_round_10: "py_round (Fin 10) 2 = Fin 10"
  by (simp add: round_half_even_of_int [of 1000, simplified])
     (subst rnd_eval [of 3], simp_all add: rat_eval)

lemma py_round_0: "py_round (Fin 0) 2 = Fin 0"
  by (simp add: round_half_even_of_int [of 0, simplified] rnd_def)

lemma TOLERANCE_tenth: "TOLERANCE = rnd (1 / 10)"
  by (simp add: TOLERANCE_def)

lemma one_minus_TOLERANCE_rnd: "fsub (Fin 1) TOLERANCE = rnd (9 / 10)"
  by (simp only: one_minus_TOLERANCE rnd_nine_tenths)

lemma one_minus_tenth: "fsub (Fin 1) (rnd (1 / 10)) = rnd (9 / 10)"
  by (simp only: TOLERANCE_tenth [symmetric] one_minus_TOLERANCE_rnd)

text \<open>
  C1. Let \<open>v\<close> be the value extracted, \<open>R\<close> the float of 0.300353 and
  \<open>e = |v - R| / R\<close>, computed in floats. When \<open>e \<le> 0.10\<close> the score is 10.0; when
  \<open>0.10 < e < 1.0\<close> it is \<open>10.0 * (1 - (e - 0.10) / 0.90)\<close> rounded to two decimals (the
  code's \<open>1.0 - TOLERANCE\<close> is the float of 0.90); when \<open>e \<ge> 1.0\<close> it is 0.0. One of
  the three cases always holds, and in each the score is the float nearest to a decimal
  with two places.
\<close>

theorem scorer_piecewise:
  assumes s: "re_search out = Some m" and p: "py_float (group1 m) = Some v"
    and e: "e = fdiv (fabs (fsub v (rnd (300353 / 1000000)))) (rnd (300353 / 1000000))"
  shows "(fle e (rnd (1 / 10)) \<longrightarrow> fst (grade_result (Some out)) = PyFloat (Fin 10)) \<and>
         (flt (rnd (1 / 10)) e \<and> flt e (Fin 1) \<longrightarrow>
            fst (grade_result (Some out)) =
              PyFloat (py_round
                (fmul (Fin 10)
                   (fsub (Fin 1) (fdiv (fsub e (rnd (1 / 10))) (rnd (9 / 10))))) 2)) \<and>
         (fle (Fin 1) e \<longrightarrow> fst (grade_result (Some out)) = PyFloat (Fin 0)) \<and>
         (fle e (rnd (1 / 10)) \<or> (flt (rnd (1 / 10)) e \<and> flt e (Fin 1)) \<or> fle (Fin 1) e) \<and>
         (\<exists>k. fst (grade_result (Some out)) = PyFloat (rnd (of_int k / 100)))"
proof -
  have e': "e = fdiv (fabs (fsub v OPTIMAL_CD)) OPTIMAL_CD"
    by (simp only: e OPTIMAL_CD_def)
  have g: "fst (grade_result (Some out)) =
     PyFloat (py_round
       (if fle e (rnd (1 / 10)) then Fin 10
        else if flt e (Fin 1) then
          fmul (Fin 10) (fsub (Fin 1) (fdiv (fsub e (rnd (1 / 10))) (rnd (9 / 10))))
        else Fin 0) 2)"
    by (simp only: grade_result_graded [OF s p] e' [symmetric] TOLERANCE_tenth [symmetric]
          one_minus_TOLERANCE_rnd [symmetric])
  have c: "e = PInf \<or> (\<exists>x. e = Fin x \<and> 0 \<le> x)"
    unfolding e' using py_float_nonneg [OF p] by (rule error_cases)
  have t: "rnd (1 / 10) = Fin (3602879701896397 / 36028797018963968)"
    by (simp only: TOLERANCE_tenth [symmetric] TOLERANCE_value)
  have 1: "fle e (rnd (1 / 10)) \<longrightarrow> fst (grade_result (Some out)) = PyFloat (Fin 10)"
    by (simp add: g py_round_10 del: py_round.simps)
  have 2: "flt (rnd (1 / 10)) e \<and> flt e (Fin 1) \<longrightarrow>
      fst (grade_result (Some out)) =
        PyFloat (py_round
          (fmul (Fin 10) (fsub (Fin 1) (fdiv (fsub e (rnd (1 / 10))) (rnd (9 / 10))))) 2)"
    using c by (auto simp: g t simp del: py_round.simps)
  have 3: "fle (Fin 1) e \<longrightarrow> fst (grade_result (Some out)) = PyFloat (Fin 0)"
    using c by (auto simp: g t py_round_0 simp del: py_round.simps)
  have 4: "fle e (rnd (1 / 10)) \<or> (flt (rnd (1 / 10)) e \<and> flt e (Fin 1)) \<or> fle (Fin 1) e"
    using c by (auto simp: t)
  have "\<exists>sc. (if fle e TOLERANCE then Fin 10
              else if flt e (Fin 1) then
                fmul (Fin 10) (fsub (Fin 1) (fdiv (fsub e TOLERANCE) (fsub (Fin 1) TOLERANCE)))
              else Fin 0) = Fin sc \<and> 0 \<le> sc \<and> sc \<le> 10"
    using c by (rule score_expression_range)
  then obtain sc where sc: "(if fle e (rnd (1 / 10)) then Fin 10
        else if flt e (Fin 1) then
          fmul (Fin 10) (fsub (Fin 1) (fdiv (fsub e (rnd (1 / 10))) (rnd (9 / 10))))
        else Fin 0) = Fin sc"
    by (auto simp only: TOLERANCE_tenth one_minus_tenth)
  have "fst (grade_result (Some out)) = PyFloat (rnd (of_int (round_half_even (sc * 10\<^sup>2)) / 100))"
    using g by (simp only: sc py_round.simps) simp
  then have 5: "\<exists>k. fst (grade_result (Some out)) = PyFloat (rnd (of_int k / 100))" by blast
  show ?thesis using 1 2 3 4 5 by blast
qed

lemma rnd_0: "rnd 0 = Fin 0"
  by (simp add: rnd_def)

lemma rnd_1: "rnd 1 = Fin 1"
  by (subst rnd_eval [of 0]) (simp_all add: rat_eval)

lemma rnd_R: "rnd (300353 / 1000000) = Fin (2705339317759221 / 9007199254740992)"
  by (simp only: OPTIMAL_CD_def [symmetric] OPTIMAL_CD_value)

lemma rnd_tenth: "rnd (1 / 10) = Fin (3602879701896397 / 36028797018963968)"
  by (simp only: TOLERANCE_tenth [symmetric] TOLERANCE_value)

lemmas token_defs = py_float_def dec_val_def regex_defs

theorem scorer_piecewise_witness:
  "fst (grade_result (Some (U ''Minimum Drag Coefficient (Cd): 0.300353''))) = PyFloat (Fin 10) \<and>
   fst (grade_result (Some (U ''Minimum Drag Coefficient (Cd): 0.450530''))) =
     PyFloat (Fin (6260003482044989 / 1125899906842624)) \<and>
   fst (grade_result (Some (U ''Minimum Drag Coefficient (Cd): 0.600706''))) = PyFloat (Fin 0)"
proof -
  let ?A = "U ''Minimum Drag Coefficient (Cd): 0.300353''"
  let ?C = "U ''Minimum Drag Coefficient (Cd): 0.450530''"
  let ?D = "U ''Minimum Drag Coefficient (Cd): 0.600706''"
  have sA: "re_search ?A = Some \<lparr>m_start = 0, group1 = U ''0.300353'', m_rest = []\<rparr>"
    by (simp add: regex_defs)
  have pA: "py_float (group1 \<lparr>m_start = 0, group1 = U ''0.300353'', m_rest = []\<rparr>) =
      Some (Fin (2705339317759221 / 9007199254740992))"
    by (simp add: token_defs rnd_R)
  have eA: "Fin 0 = fdiv (fabs (fsub (Fin (2705339317759221 / 9007199254740992)) (rnd (300353 / 1000000))))
      (rnd (300353 / 1000000))"
    by (simp add: rnd_R rnd_0)
  have A: "fst (grade_result (Some ?A)) = PyFloat (Fin 10)"
    using scorer_piecewise [OF sA pA eA] by (simp add: rnd_tenth)
  have cv: "rnd (45053 / 100000) = Fin (4058013480238459 / 9007199254740992)"
    by (subst rnd_eval [of "- 2"]) (simp_all add: rat_eval)
  have cd1: "rnd (676337081239619 / 4503599627370496) = Fin (676337081239619 / 4503599627370496)"
    by (subst rnd_eval [of "- 3"]) (simp_all add: rat_eval)
  have ce: "rnd (1352674162479238 / 2705339317759221) = Fin (562951827715737 / 1125899906842624)"
    by (subst rnd_eval [of "- 1"]) (simp_all add: rat_eval)
  have cs1: "rnd (14411578785007187 / 36028797018963968) = Fin (3602894696251797 / 9007199254740992)"
    by (subst rnd_eval [of "- 2"]) (simp_all add: rat_eval)
  have cs2: "rnd (3602894696251797 / 8106479329266893) = Fin (4003216329168663 / 9007199254740992)"
    by (subst rnd_eval [of "- 2"]) (simp_all add: rat_eval)
  have cs3: "rnd (5003982925572329 / 9007199254740992) = Fin (5003982925572329 / 9007199254740992)"
    by (subst rnd_eval [of "- 1"]) (simp_all add: rat_eval)
  have cs4: "rnd (25019914627861645 / 4503599627370496) = Fin (6254978656965411 / 1125899906842624)"
    by (subst rnd_eval [of "2"]) (simp_all add: rat_eval)
  have csc: "rnd (139 / 25) = Fin (6260003482044989 / 1125899906842624)"
    by (subst rnd_eval [of "2"]) (simp_all add: rat_eval)
  have sC: "re_search ?C = Some \<lparr>m_start = 0, group1 = U ''0.450530'', m_rest = []\<rparr>"
    by (simp add: regex_defs)
  have pC: "py_float (group1 \<lparr>m_start = 0, group1 = U ''0.450530'', m_rest = []\<rparr>) =
      Some (Fin (4058013480238459 / 9007199254740992))"
    by (simp add: token_defs cv)
  have eC: "Fin (562951827715737 / 1125899906842624) =
      fdiv (fabs (fsub (Fin (4058013480238459 / 9007199254740992)) (rnd (300353 / 1000000)))) (rnd (300353 / 1000000))"
    by (simp add: rnd_R cd1 ce)
  have fC: "py_round (fmul (Fin 10) (fsub (Fin 1)
      (fdiv (fsub (Fin (562951827715737 / 1125899906842624)) (rnd (1 / 10))) (rnd (9 / 10))))) 2 =
      Fin (6260003482044989 / 1125899906842624)"
    by (simp add: rnd_tenth rnd_nine_tenths cs1 cs2 cs3 cs4 csc rat_eval)
  have C: "fst (grade_result (Some ?C)) = PyFloat (Fin (6260003482044989 / 1125899906842624))"
    using scorer_piecewise [OF sC pC eC] by (simp only: fC) (simp add: rnd_tenth)
  have dv: "rnd (300353 / 500000) = Fin (2705339317759221 / 4503599627370496)"
    by (subst rnd_eval [of "- 1"]) (simp_all add: rat_eval)
  have dd1: "rnd (2705339317759221 / 9007199254740992) = Fin (2705339317759221 / 9007199254740992)"
    by (subst rnd_eval [of "- 2"]) (simp_all add: rat_eval)
  have sD: "re_search ?D = Some \<lparr>m_start = 0, group1 = U ''0.600706'', m_rest = []\<rparr>"
    by (simp add: regex_defs)
  have pD: "py_float (group1 \<lparr>m_start = 0, group1 = U ''0.600706'', m_rest = []\<rparr>) =
      Some (Fin (2705339317759221 / 4503599627370496))"
    by (simp add: token_defs dv)
  have eD: "Fin 1 =
      fdiv (fabs (fsub (Fin (2705339317759221 / 4503599627370496)) (rnd (300353 / 1000000)))) (rnd (300353 / 1000000))"
    by (simp add: rnd_R dd1 rnd_1)
  have D: "fst (grade_result (Some ?D)) = PyFloat (Fin 0)"
    using scorer_piecewise [OF sD pD eD] by simp
  show ?thesis using A C D by simp
qed

end
